theory Spec2Isabelle
  imports Main "HOL-Library.Word" "HOL-Library.Sublist"
begin

section \<open>The sample selector: \<open>getRandomList\<close>\<close>

text \<open>
  Go's \<open>int\<close> is modelled as \<open>int\<close>: the only arithmetic of \<open>getRandomList\<close> is
  \<open>n - 1\<close> on the branch where \<open>10 < n\<close>, which cannot wrap around.

  \<open>rand.Perm\<close> belongs to Go's standard library; its result is an argument of the model
  (\<open>Perm\<close>, the permutation the entropy source hands out for a given \<open>n\<close>). The only
  operation of the function that can panic is the slice expression \<open>randPerm[:10]\<close>,
  which panics when the capacity of the slice, here its length, is less than 10.
\<close>

datatype error = SliceBoundsOutOfRange

definition getRandomList :: "(int \<Rightarrow> int list) \<Rightarrow> int \<Rightarrow> error + int list" where
  "getRandomList Perm n =
     (if n \<le> 10 then Inr [0, n]
      else let randPerm = Perm n in
        if length randPerm < 10 then Inl SliceBoundsOutOfRange
        else let randPerm = take 10 randPerm in
          Inr (randPerm @ [0, n - 1]))"

text \<open>
  What the documentation of \<open>rand.Perm\<close> promises of its result: a permutation of the
  integers of the half-open interval \<open>[0, n)\<close>.
\<close>

definition is_perm :: "int \<Rightarrow> int list \<Rightarrow> bool" where
  "is_perm n p = (distinct p \<and> set p = {0..<n})"

text \<open>One possible outcome of \<open>rand.Perm\<close>: the identity permutation.\<close>

definition idPerm :: "int \<Rightarrow> int list" where
  "idPerm n = map int [0..<nat n]"

section \<open>The fixture builder: \<open>ListenerBuilder\<close>\<close>

text \<open>
  The struct \<open>gatewayv1beta1.Listener\<close> is declared by the gateway API package:
  \<open>Name SectionName\<close> (a string), \<open>Hostname *Hostname\<close> (a pointer to a string),
  \<open>Port PortNumber\<close> (an \<open>int32\<close>), \<open>Protocol ProtocolType\<close> (a string),
  \<open>TLS *GatewayTLSConfig\<close> and \<open>AllowedRoutes *AllowedRoutes\<close>. A pointer field is an
  option, \<open>nil\<close> being \<open>None\<close>. The field \<open>TLS\<close> is called \<open>TLSConfig\<close> here, since the
  builder has a method \<open>TLS\<close>.
\<close>

typedecl GatewayTLSConfig
typedecl AllowedRoutes

record Listener =
  Name :: string
  Hostname :: "string option"
  Port :: "32 word"
  Protocol :: string
  TLSConfig :: "GatewayTLSConfig option"
  AllowedRoutes :: "AllowedRoutes option"

text \<open>The protocol constants of the gateway API package.\<close>

definition HTTPProtocolType :: string where "HTTPProtocolType = ''HTTP''"
definition HTTPSProtocolType :: string where "HTTPSProtocolType = ''HTTPS''"
definition TLSProtocolType :: string where "TLSProtocolType = ''TLS''"
definition TCPProtocolType :: string where "TCPProtocolType = ''TCP''"

record ListenerBuilder =
  listener :: Listener

text \<open>
  A composite literal leaves every field it does not name at the zero value of its type.
\<close>

definition NewListener :: "string \<Rightarrow> ListenerBuilder" where
  "NewListener name =
     \<lparr>listener = \<lparr>Name = name, Hostname = None, Port = 0, Protocol = [],
                   TLSConfig = None, AllowedRoutes = None\<rparr>\<rparr>"

definition Build :: "ListenerBuilder \<Rightarrow> Listener" where
  "Build b = listener b"

definition IntoSlice :: "ListenerBuilder \<Rightarrow> Listener list" where
  "IntoSlice b = [listener b]"

text \<open>
  The setters mutate the builder behind the pointer and return that pointer: the model
  returns the updated builder. The conversion \<open>PortNumber(port)\<close> of an \<open>int\<close> to an
  \<open>int32\<close> keeps the low 32 bits, which is what \<open>word_of_int\<close> does.
\<close>

definition WithPort :: "int \<Rightarrow> ListenerBuilder \<Rightarrow> ListenerBuilder" where
  "WithPort port b = b\<lparr>listener := (listener b)\<lparr>Port := word_of_int port\<rparr>\<rparr>"

definition HTTP :: "ListenerBuilder \<Rightarrow> ListenerBuilder" where
  "HTTP b = b\<lparr>listener := (listener b)\<lparr>Protocol := HTTPProtocolType\<rparr>\<rparr>"

definition HTTPS :: "ListenerBuilder \<Rightarrow> ListenerBuilder" where
  "HTTPS b = b\<lparr>listener := (listener b)\<lparr>Protocol := HTTPSProtocolType\<rparr>\<rparr>"

definition TLS :: "ListenerBuilder \<Rightarrow> ListenerBuilder" where
  "TLS b = b\<lparr>listener := (listener b)\<lparr>Protocol := TLSProtocolType\<rparr>\<rparr>"

definition TCP :: "ListenerBuilder \<Rightarrow> ListenerBuilder" where
  "TCP b = b\<lparr>listener := (listener b)\<lparr>Protocol := TCPProtocolType\<rparr>\<rparr>"

definition WithHostname :: "string \<Rightarrow> ListenerBuilder \<Rightarrow> ListenerBuilder" where
  "WithHostname hostname b = b\<lparr>listener := (listener b)\<lparr>Hostname := Some hostname\<rparr>\<rparr>"

definition WithAllowedRoutes :: "AllowedRoutes option \<Rightarrow> ListenerBuilder \<Rightarrow> ListenerBuilder" where
  "WithAllowedRoutes routes b = b\<lparr>listener := (listener b)\<lparr>AllowedRoutes := routes\<rparr>\<rparr>"

text \<open>A call of one of the seven setters, and a chain of such calls on a builder.\<close>

datatype setter =
    CallWithPort int
  | CallHTTP
  | CallHTTPS
  | CallTLS
  | CallTCP
  | CallWithHostname string
  | CallWithAllowedRoutes "AllowedRoutes option"

fun call :: "ListenerBuilder \<Rightarrow> setter \<Rightarrow> ListenerBuilder" where
  "call b (CallWithPort port) = WithPort port b"
| "call b CallHTTP = HTTP b"
| "call b CallHTTPS = HTTPS b"
| "call b CallTLS = TLS b"
| "call b CallTCP = TCP b"
| "call b (CallWithHostname hostname) = WithHostname hostname b"
| "call b (CallWithAllowedRoutes routes) = WithAllowedRoutes routes b"

definition chain :: "ListenerBuilder \<Rightarrow> setter list \<Rightarrow> ListenerBuilder" where
  "chain b cs = foldl call b cs"

section \<open>The harness: \<open>TestBasicPerf\<close>, lines 141 to 193\<close>

text \<open>
  The test function runs in one goroutine (the main one below) and starts one goroutine
  per sampled index; \<open>require.Eventually\<close> in turn runs every evaluation of its
  condition in a goroutine of its own. The model is an interleaving of their steps: a run
  is a list of events, each of them one step of the main goroutine, one step on behalf of
  a task, or the passing of time, and \<open>step\<close> returns \<open>None\<close> for an event that cannot
  happen in a state (a goroutine that is blocked or gone). What the outside world answers
  (whether an external call succeeds, what a request returns) comes with the event. The
  clock counts milliseconds.

  The program counter of the main goroutine is the line it is about to execute.
  \<open>L160 rest\<close> is the loop over \<open>randomList\<close> with \<open>rest\<close> still to be started,
  \<open>Exited\<close> the end of the test by \<open>require.NoError\<close> (\<open>t.FailNow\<close>), \<open>Panicked\<close> a
  panic in \<open>getRandomList\<close>.
\<close>

datatype pc =
    L141 | L143 | L146 | L148 | L151 | L156 | L160 "int list" | L188 | L190 | L192
  | Returned | Exited | Panicked

text \<open>
  A task is created by the \<open>go\<close> statement, polls inside \<open>require.Eventually\<close> from
  the instant \<open>t0\<close> of \<open>Polling t0\<close> on, and is resolved, as \<open>Succeeded\<close> or \<open>Failed\<close>,
  once its deferred \<open>wg.Done\<close> has run.
\<close>

datatype status = Created | Polling nat | Succeeded | Failed

datatype log_entry = Warning | ApplyTime int | EffectTime int

text \<open>
  The answer to one request: \<open>Do\<close> returns an error, or a response with a status code
  and a body, whose reading gives the bytes read or an error (\<open>None\<close>).
\<close>

datatype response = DoError | Response int "string option"

datatype verdict = Warned | Ret bool | AssertFailed

definition StatusOK :: int where "StatusOK = 200"

text \<open>
  The condition passed to \<open>require.Eventually\<close>, lines 168 to 184: it logs a warning
  and returns false, or returns a value, or is ended by a failed \<open>require\<close>.
\<close>

fun condition :: "response \<Rightarrow> verdict" where
  "condition DoError = Warned"
| "condition (Response code rd) =
     (if code = StatusOK then
        (case rd of
           None \<Rightarrow> AssertFailed
         | Some body \<Rightarrow>
             if 0 < length body then Ret (sublist ''origin'' body) else AssertFailed)
      else Ret False)"

text \<open>
  \<open>require.Eventually\<close> (line 168, with the wait \<open>ingressWait\<close> and the tick of line
  184) starts a timer and a ticker and then selects among three cases: the timer has
  expired, and it fails; a tick has arrived, and it stops listening for ticks and starts
  a goroutine that evaluates the condition and sends the result on a channel; a result
  has arrived, and it returns if the result is true and listens for ticks again otherwise.
  The ticker keeps at most one tick that nobody has received yet.

  For each task: how many times its ticker has fired, whether a tick is waiting to be
  received, whether \<open>require.Eventually\<close> listens for ticks, how many evaluations of
  the condition it has started, and the state of the evaluation: none running and no
  result waiting (\<open>Idle\<close>), one running (\<open>InFlight\<close>), or a result waiting on the
  channel. An evaluation that is running when its task resolves keeps running.
\<close>

datatype cond = Idle | InFlight | Delivered bool

record poll =
  fired :: nat
  buffered :: bool
  armed :: bool
  attempts :: nat
  cond :: cond

definition new_poll :: poll where
  "new_poll = \<lparr>fired = 0, buffered = False, armed = False, attempts = 0, cond = Idle\<rparr>"

definition tick :: nat where "tick = 500"

datatype task_event = NewRequest bool | Fire | Tick | Finish response | Receive | Deadline

datatype event = Advance nat | Main bool | Task nat task_event

text \<open>
  The state: the program counter, the wall clock, the readings \<open>time.Now\<close> has returned
  so far, the local variables \<open>t1\<close>, \<open>t2\<close>, \<open>t4\<close> and \<open>randomList\<close>, the counter of the
  wait group, the goroutines started (sampled index and status, in the order of their
  start) and, at the same positions, their polling state, the test's failed flag, what
  was logged, and whether the test binary has panicked.
\<close>

record harness =
  pc :: pc
  now :: nat
  instants :: "nat list"
  t1 :: "nat option"
  t2 :: "nat option"
  t4 :: "nat option"
  randomList :: "int list"
  wg :: int
  tasks :: "(int \<times> status) list"
  polls :: "poll list"
  failed :: bool
  logs :: "log_entry list"
  crashed :: bool

text \<open>
  What the test takes from outside the file: the permutation \<open>rand.Perm\<close> returns and the
  constant \<open>ingressWait\<close>, the time \<open>require.Eventually\<close> waits.
\<close>

record env =
  rand_Perm :: "int \<Rightarrow> int list"
  ingressWait :: nat

definition start :: "nat \<Rightarrow> harness" where
  "start c =
     \<lparr>pc = L141, now = c, instants = [], t1 = None, t2 = None, t4 = None,
      randomList = [], wg = 0, tasks = [], polls = [], failed = False, logs = [],
      crashed = False\<rparr>"

text \<open>
  The main goroutine. \<open>getTemporaryKubeconfig\<close> (line 143) and \<open>getKongProxyIP\<close>
  (line 151) are helpers of the repository outside this file that take \<open>t\<close>: either
  returns, or fails the test; \<open>ok\<close> says which, as it says whether \<open>kubectl apply\<close>
  returned without an error at line 146. \<open>wg.Wait\<close> (line 188) returns only when the
  counter is zero.
\<close>

fun main_step :: "env \<Rightarrow> bool \<Rightarrow> pc \<Rightarrow> harness \<Rightarrow> harness option" where
  "main_step E ok L141 s =
     Some (s\<lparr>instants := instants s @ [now s], t1 := Some (now s), pc := L143\<rparr>)"
| "main_step E ok L143 s =
     Some (if ok then s\<lparr>pc := L146\<rparr> else s\<lparr>failed := True, pc := Exited\<rparr>)"
| "main_step E ok L146 s =
     Some (if ok then s\<lparr>pc := L148\<rparr> else s\<lparr>failed := True, pc := Exited\<rparr>)"
| "main_step E ok L148 s =
     Some (s\<lparr>instants := instants s @ [now s], t2 := Some (now s), pc := L151\<rparr>)"
| "main_step E ok L151 s =
     Some (if ok then s\<lparr>pc := L156\<rparr> else s\<lparr>failed := True, pc := Exited\<rparr>)"
| "main_step E ok L156 s =
     (case getRandomList (rand_Perm E) 10000 of
        Inl e \<Rightarrow> Some (s\<lparr>pc := Panicked\<rparr>)
      | Inr xs \<Rightarrow>
          Some (s\<lparr>randomList := xs, wg := wg s + int (length xs), pc := L160 xs\<rparr>))"
| "main_step E ok (L160 []) s = Some (s\<lparr>pc := L188\<rparr>)"
| "main_step E ok (L160 (i # rest)) s =
     Some (s\<lparr>tasks := tasks s @ [(i, Created)], polls := polls s @ [new_poll],
             pc := L160 rest\<rparr>)"
| "main_step E ok L188 s = (if wg s = 0 then Some (s\<lparr>pc := L190\<rparr>) else None)"
| "main_step E ok L190 s =
     Some (s\<lparr>instants := instants s @ [now s], t4 := Some (now s), pc := L192\<rparr>)"
| "main_step E ok L192 s =
     (case (t1 s, t2 s, t4 s) of
        (Some a, Some b, Some c) \<Rightarrow>
          Some (s\<lparr>logs := logs s @ [ApplyTime (int b - int a), EffectTime (int c - int b)],
                  pc := Returned\<rparr>)
      | _ \<Rightarrow> None)"
| "main_step E ok Returned s = None"
| "main_step E ok Exited s = None"
| "main_step E ok Panicked s = None"

text \<open>
  The goroutine of a task, lines 161 to 185. Leaving it, by returning or by
  \<open>t.FailNow\<close>, runs the deferred \<open>wg.Done\<close>.
\<close>

definition set_poll :: "nat \<Rightarrow> poll \<Rightarrow> harness \<Rightarrow> harness" where
  "set_poll j p s = s\<lparr>polls := (polls s)[j := p]\<rparr>"

definition set_task :: "nat \<Rightarrow> status \<Rightarrow> poll \<Rightarrow> harness \<Rightarrow> harness" where
  "set_task j st p s =
     s\<lparr>tasks := (tasks s)[j := (fst (tasks s ! j), st)], polls := (polls s)[j := p]\<rparr>"

definition wg_Done :: "harness \<Rightarrow> harness" where
  "wg_Done s = s\<lparr>wg := wg s - 1\<rparr>"

text \<open>
  Once the test function has returned or has been ended by \<open>t.FailNow\<close>, the test is
  complete, and a goroutine that then logs through \<open>t\<close> or fails it panics.
\<close>

fun completed :: "pc \<Rightarrow> bool" where
  "completed Returned = True"
| "completed Exited = True"
| "completed _ = False"

text \<open>
  An evaluation of the condition comes to its end with the answer \<open>r\<close> to its request,
  whether or not \<open>require.Eventually\<close> is still there to receive the result. A failed
  \<open>require\<close> fails the test and ends the evaluating goroutine, so that no result is sent.
\<close>

definition finish :: "nat \<Rightarrow> poll \<Rightarrow> response \<Rightarrow> harness \<Rightarrow> harness" where
  "finish j p r s =
     (case condition r of
        Warned \<Rightarrow>
          if completed (pc s) then s\<lparr>crashed := True\<rparr>
          else set_poll j (p\<lparr>cond := Delivered False\<rparr>) (s\<lparr>logs := logs s @ [Warning]\<rparr>)
      | Ret observed \<Rightarrow> set_poll j (p\<lparr>cond := Delivered observed\<rparr>) s
      | AssertFailed \<Rightarrow>
          if completed (pc s) then s\<lparr>crashed := True\<rparr>
          else set_poll j (p\<lparr>cond := Idle\<rparr>) (s\<lparr>failed := True\<rparr>))"

fun task_step ::
  "env \<Rightarrow> nat \<Rightarrow> status \<Rightarrow> poll \<Rightarrow> task_event \<Rightarrow> harness \<Rightarrow> harness option" where
  "task_step E j st p (Finish r) s =
     (if cond p = InFlight then Some (finish j p r s) else None)"
| "task_step E j Created p (NewRequest ok) s =
     Some (if ok then set_task j (Polling (now s)) (new_poll\<lparr>armed := True\<rparr>) s
           else wg_Done (set_task j Failed p (s\<lparr>failed := True\<rparr>)))"
| "task_step E j (Polling t0) p Fire s =
     (if t0 + tick * (fired p + 1) \<le> now s
      then Some (set_poll j (p\<lparr>fired := fired p + 1, buffered := True\<rparr>) s)
      else None)"
| "task_step E j (Polling t0) p Tick s =
     (if armed p \<and> buffered p
      then Some (set_poll j (p\<lparr>buffered := False, armed := False,
                              attempts := attempts p + 1, cond := InFlight\<rparr>) s)
      else None)"
| "task_step E j (Polling t0) p Receive s =
     (case cond p of
        Delivered observed \<Rightarrow>
          Some (if observed then wg_Done (set_task j Succeeded (p\<lparr>cond := Idle\<rparr>) s)
                else set_poll j (p\<lparr>cond := Idle, armed := True\<rparr>) s)
      | _ \<Rightarrow> None)"
| "task_step E j (Polling t0) p Deadline s =
     (if t0 + ingressWait E \<le> now s
      then Some (wg_Done (set_task j Failed p (s\<lparr>failed := True\<rparr>)))
      else None)"
| "task_step E j _ _ _ s = None"

text \<open>One event. After a panic nothing runs any more.\<close>

fun act :: "env \<Rightarrow> event \<Rightarrow> harness \<Rightarrow> harness option" where
  "act E (Advance d) s = Some (s\<lparr>now := now s + d\<rparr>)"
| "act E (Main ok) s = main_step E ok (pc s) s"
| "act E (Task j e) s =
     (if j < length (tasks s) then task_step E j (snd (tasks s ! j)) (polls s ! j) e s
      else None)"

definition step :: "env \<Rightarrow> event \<Rightarrow> harness \<Rightarrow> harness option" where
  "step E e s = (if crashed s then None else act E e s)"

fun run :: "env \<Rightarrow> event list \<Rightarrow> harness \<Rightarrow> harness option" where
  "run E [] s = Some s"
| "run E (e # es) s = (case step E e s of None \<Rightarrow> None | Some s' \<Rightarrow> run E es s')"

text \<open>The tasks that have not run their \<open>wg.Done\<close> yet.\<close>

fun unresolved :: "status \<Rightarrow> bool" where
  "unresolved Created = True"
| "unresolved (Polling t0) = True"
| "unresolved Succeeded = False"
| "unresolved Failed = False"

definition pending :: "(int \<times> status) list \<Rightarrow> nat" where
  "pending ts = length (filter unresolved (map snd ts))"

section \<open>Invariants of the harness\<close>

text \<open>
  The program points before the loop of line 160 (no goroutine has been started there),
  the sampled indices the loop has still to start, and the points after \<open>wg.Wait\<close>.
\<close>

fun before_dispatch :: "pc \<Rightarrow> bool" where
  "before_dispatch (L160 rest) = False"
| "before_dispatch L188 = False"
| "before_dispatch L190 = False"
| "before_dispatch L192 = False"
| "before_dispatch Returned = False"
| "before_dispatch _ = True"

fun to_start :: "pc \<Rightarrow> int list" where
  "to_start (L160 rest) = rest"
| "to_start _ = []"

fun joined :: "pc \<Rightarrow> bool" where
  "joined L190 = True"
| "joined L192 = True"
| "joined Returned = True"
| "joined _ = False"

text \<open>
  The counter of the wait group counts the tasks that are still to be started or still
  to be resolved; the tasks started are the sampled indices, in order.
\<close>

definition join_inv :: "harness \<Rightarrow> bool" where
  "join_inv s =
     ((before_dispatch (pc s) \<longrightarrow> tasks s = [] \<and> wg s = 0) \<and>
      (\<not> before_dispatch (pc s) \<longrightarrow>
         wg s = int (pending (tasks s)) + int (length (to_start (pc s))) \<and>
         map fst (tasks s) @ to_start (pc s) = randomList s) \<and>
      (joined (pc s) \<longrightarrow> pending (tasks s) = 0))"

text \<open>
  Which of \<open>t1\<close>, \<open>t2\<close>, \<open>t4\<close> are assigned at a program point, the readings of the
  clock they account for, and the two durations among the log entries.
\<close>

fun recorded :: "nat option \<Rightarrow> nat list" where
  "recorded None = []"
| "recorded (Some a) = [a]"

fun shape :: "pc \<Rightarrow> nat option \<Rightarrow> nat option \<Rightarrow> nat option \<Rightarrow> bool" where
  "shape L141 x y z = (x = None \<and> y = None \<and> z = None)"
| "shape L143 x y z = (x \<noteq> None \<and> y = None \<and> z = None)"
| "shape L146 x y z = (x \<noteq> None \<and> y = None \<and> z = None)"
| "shape L148 x y z = (x \<noteq> None \<and> y = None \<and> z = None)"
| "shape L192 x y z = (x \<noteq> None \<and> y \<noteq> None \<and> z \<noteq> None)"
| "shape Returned x y z = (x \<noteq> None \<and> y \<noteq> None \<and> z \<noteq> None)"
| "shape Exited x y z = (x \<noteq> None \<and> z = None)"
| "shape _ x y z = (x \<noteq> None \<and> y \<noteq> None \<and> z = None)"

fun is_duration :: "log_entry \<Rightarrow> bool" where
  "is_duration Warning = False"
| "is_duration (ApplyTime d) = True"
| "is_duration (EffectTime d) = True"

definition reported :: "log_entry list \<Rightarrow> log_entry list" where
  "reported l = filter is_duration l"

fun durations :: "nat option \<Rightarrow> nat option \<Rightarrow> nat option \<Rightarrow> log_entry list" where
  "durations (Some a) (Some b) (Some d) =
     [ApplyTime (int b - int a), EffectTime (int d - int b)]"
| "durations _ _ _ = []"

definition time_inv :: "harness \<Rightarrow> bool" where
  "time_inv s =
     (shape (pc s) (t1 s) (t2 s) (t4 s) \<and>
      recorded (t1 s) @ recorded (t2 s) @ recorded (t4 s) = instants s \<and>
      sorted (instants s @ [now s]) \<and>
      reported (logs s) = (if pc s = Returned then durations (t1 s) (t2 s) (t4 s) else []))"



section \<open>Concrete runs\<close>

text \<open>
  An environment whose \<open>rand.Perm\<close> returns the identity permutation and whose
  \<open>ingressWait\<close> is three seconds, and runs in it: up to the loop of line 160; until
  the first task polls; until its first request is under way; until every task is started
  and the main goroutine waits; and a whole run, in which the first task meets one
  transport error and every task then a response with the expected body.
\<close>

definition env0 :: env where
  "env0 = \<lparr>rand_Perm = idPerm, ingressWait = 3000\<rparr>"

definition good :: response where
  "good = Response 200 (Some ''origin: 10.0.0.1'')"

definition until_loop :: "event list" where
  "until_loop =
     [Advance 3, Main True, Main True, Advance 7, Main True, Main True, Advance 2,
      Main True, Main True]"

definition first_go :: "event list" where
  "first_go = until_loop @ [Main True, Advance 1, Task 0 (NewRequest True)]"


definition all_go :: "event list" where
  "all_go = until_loop @ replicate 13 (Main True)"

definition all_poll :: "event list" where
  "all_poll = all_go @ map (\<lambda>j. Task j (NewRequest True)) [0..<12] @ [Advance 500]"

definition attempt :: "response \<Rightarrow> nat \<Rightarrow> event list" where
  "attempt r j = [Task j Fire, Task j Tick, Task j (Finish r), Task j Receive]"

definition full_run :: "event list" where
  "full_run =
     all_poll @ attempt DoError 0 @ [Advance 500] @ concat (map (attempt good) [0..<12]) @
     [Main True, Main True, Main True]"




definition sample0 :: "int list" where
  "sample0 = [0, 1, 2, 3, 4, 5, 6, 7, 8, 9, 0, 9999]"


definition polling :: harness where
  "polling =
     \<lparr>pc = L160 [1, 2, 3, 4, 5, 6, 7, 8, 9, 0, 9999], now = 13, instants = [3, 10],
      t1 = Some 3, t2 = Some 10, t4 = None, randomList = sample0, wg = 12,
      tasks = [(0, Polling 13)], polls = [new_poll\<lparr>armed := True\<rparr>], failed = False,
      logs = [], crashed = False\<rparr>"




definition waiting :: harness where
  "waiting =
     \<lparr>pc = L188, now = 12, instants = [3, 10], t1 = Some 3, t2 = Some 10, t4 = None,
      randomList = sample0, wg = 12, tasks = map (\<lambda>i. (i, Created)) sample0,
      polls = replicate 12 new_poll, failed = False, logs = [], crashed = False\<rparr>"

definition all_polling :: harness where
  "all_polling =
     \<lparr>pc = L188, now = 512, instants = [3, 10], t1 = Some 3, t2 = Some 10, t4 = None,
      randomList = sample0, wg = 12, tasks = map (\<lambda>i. (i, Polling 12)) sample0,
      polls = replicate 12 (new_poll\<lparr>armed := True\<rparr>), failed = False, logs = [],
      crashed = False\<rparr>"

definition final :: harness where
  "final =
     \<lparr>pc = Returned, now = 1012, instants = [3, 10, 1012], t1 = Some 3, t2 = Some 10,
      t4 = Some 1012, randomList = sample0, wg = 0,
      tasks = map (\<lambda>i. (i, Succeeded)) sample0,
      polls =
        \<lparr>fired = 2, buffered = False, armed = False, attempts = 2, cond = Idle\<rparr> #
        replicate 11
          \<lparr>fired = 1, buffered = False, armed = False, attempts = 1, cond = Idle\<rparr>,
      failed = False, logs = [Warning, ApplyTime 7, EffectTime 1002], crashed = False\<rparr>"




section \<open>Properties of the sample selector\<close>

lemma is_perm_length:
  assumes "is_perm n p"
  shows "length p = nat n"
proof -
  from assms have d: "distinct p" and s: "set p = {0..<n}" by (simp_all add: is_perm_def)
  have "length p = card (set p)" using d by (rule distinct_card [symmetric])
  also have "\<dots> = nat n" unfolding s by simp
  finally show ?thesis .
qed

lemma is_perm_idPerm: "is_perm n (idPerm n)"
proof (cases "0 \<le> n")
  case True
  have "int ` {0..<nat n} = {int 0..<int (nat n)}" by (rule image_int_atLeastLessThan)
  then have "set (idPerm n) = {0..<n}" using True by (simp add: idPerm_def)
  moreover have "distinct (idPerm n)" by (simp add: idPerm_def distinct_map)
  ultimately show ?thesis by (simp add: is_perm_def)
next
  case False
  then show ?thesis by (simp add: is_perm_def idPerm_def)
qed

lemma getRandomList_idPerm:
  "10 < n \<Longrightarrow> getRandomList idPerm n = Inr (map int [0..<10] @ [0, n - 1])"
  by (simp add: getRandomList_def idPerm_def Let_def take_map)

lemma take_idPerm: "10 < n \<Longrightarrow> take 10 (idPerm n) = [0, 1, 2, 3, 4, 5, 6, 7, 8, 9]"
proof -
  assume "10 < n"
  then have "take 10 (idPerm n) = map int [0..<10]" by (simp add: idPerm_def take_map)
  then show ?thesis by (simp add: upt_rec)
qed

lemma getRandomList_large:
  assumes "10 < n" "is_perm n (Perm n)"
  shows "getRandomList Perm n = Inr (take 10 (Perm n) @ [0, n - 1])"
proof -
  have "length (Perm n) = nat n" using assms(2) by (rule is_perm_length)
  then show ?thesis using assms(1) by (simp add: getRandomList_def Let_def)
qed

lemma take_perm:
  assumes "10 < n" "is_perm n p"
  shows "distinct (take 10 p)" "set (take 10 p) \<subseteq> {0..<n}" "length (take 10 p) = 10"
    "card (set (take 10 p)) = 10"
proof -
  show d: "distinct (take 10 p)" using assms by (simp add: is_perm_def)
  show "set (take 10 p) \<subseteq> {0..<n}"
    using assms set_take_subset [of 10 p] by (simp add: is_perm_def)
  show l: "length (take 10 p) = 10" using assms is_perm_length [OF assms(2)] by simp
  show "card (set (take 10 p)) = 10" using d l by (simp add: distinct_card)
qed

text \<open>
  On the branch \<open>10 < n\<close> the sample is as the specification describes it, when its size
  is the number of distinct indices: every index lies in \<open>[0, n)\<close>, \<open>0\<close> and \<open>n - 1\<close>
  are among them, and there are at most \<open>min n 12\<close> of them.
\<close>

lemma getRandomList_large_bounds:
  assumes "10 < n" "is_perm n (Perm n)"
  shows "\<exists>xs. getRandomList Perm n = Inr xs \<and> set xs \<subseteq> {0..<n} \<and> 0 \<in> set xs \<and>
    n - 1 \<in> set xs \<and> int (card (set xs)) \<le> min n 12"
proof -
  let ?xs = "take 10 (Perm n) @ [0, n - 1]"
  note tp = take_perm [OF assms(1), of "Perm n", OF assms(2)]
  have r: "getRandomList Perm n = Inr ?xs" using assms by (simp add: getRandomList_large)
  have sub: "set ?xs \<subseteq> {0..<n}" using tp(2) assms(1) by auto
  have "card (set ?xs) \<le> card {0..<n}" using sub by (intro card_mono) simp_all
  then have c1: "int (card (set ?xs)) \<le> n" using assms(1) by simp
  have "card (set ?xs) \<le> length ?xs" by (rule card_length)
  then have c2: "int (card (set ?xs)) \<le> 12" using tp(3) by simp
  have "0 \<in> set ?xs" "n - 1 \<in> set ?xs" by simp_all
  then show ?thesis using r sub c1 c2 by (intro exI [of _ ?xs]) simp
qed

text \<open>
  Claim C1, evaluated on the code. The claim asks, for every \<open>n \<ge> 1\<close>, for indices of
  \<open>[0, n)\<close> with \<open>0\<close> and \<open>n - 1\<close> among them. On the branch \<open>n \<le> 10\<close> the code
  returns \<open>[0, n]\<close>, whatever \<open>rand.Perm\<close> would return: for \<open>n = 5\<close> the sample holds
  the index 5, which is outside \<open>[0, 5)\<close>, and not the last index 4. The other
  branch appends \<open>n - 1\<close>.
\<close>

theorem getRandomList_small_off_by_one:
  "getRandomList Perm 5 = Inr [0, 5] \<and> (5::int) \<notin> {0..<5} \<and> (4::int) \<notin> set [0, 5]"
  by (simp add: getRandomList_def)

text \<open>
  Claim C2, as the code has it. For every \<open>n > 12\<close> and every permutation \<open>Perm n\<close> of
  \<open>[0, n)\<close> that \<open>rand.Perm\<close> returns, the sample is the first 10 entries of the
  permutation (10 distinct indices) followed by \<open>0\<close> and \<open>n - 1\<close>, with no
  de-duplication: the slice has exactly 12 entries, its indices are the draw together with
  \<open>0\<close> and \<open>n - 1\<close>, all in \<open>[0, n)\<close>, and between 10 and 12 of them are distinct.
\<close>

theorem getRandomList_large_sample:
  assumes "12 < n" "is_perm n (Perm n)"
  shows "\<exists>xs. getRandomList Perm n = Inr xs \<and> xs = take 10 (Perm n) @ [0, n - 1] \<and>
     length xs = 12 \<and> distinct (take 10 (Perm n)) \<and>
     set xs = set (take 10 (Perm n)) \<union> {0, n - 1} \<and> set xs \<subseteq> {0..<n} \<and>
     10 \<le> card (set xs) \<and> card (set xs) \<le> 12"
proof -
  let ?d = "take 10 (Perm n)"
  let ?xs = "?d @ [0, n - 1]"
  have n: "10 < n" using assms(1) by simp
  note tp = take_perm [OF n, of "Perm n", OF assms(2)]
  have r: "getRandomList Perm n = Inr ?xs" using n assms(2) by (simp add: getRandomList_large)
  have len: "length ?xs = 12" using tp(3) by simp
  have s: "set ?xs = set ?d \<union> {0, n - 1}" by auto
  have sub: "set ?xs \<subseteq> {0..<n}" using tp(2) n by auto
  have lo: "10 \<le> card (set ?xs)"
  proof -
    have "card (set ?d) \<le> card (set ?xs)" by (rule card_mono) auto
    then show ?thesis using tp(4) by simp
  qed
  have hi: "card (set ?xs) \<le> 12" using card_length [of ?xs] len by simp
  show ?thesis using r len tp(1) s sub lo hi by blast
qed

theorem getRandomList_large_sample_witness:
  "(12::int) < 13 \<and> is_perm 13 (idPerm 13) \<and>
   getRandomList idPerm 13 = Inr [0, 1, 2, 3, 4, 5, 6, 7, 8, 9, 0, 12] \<and>
   length [0, 1, 2, 3, 4, 5, 6, 7, 8, 9, 0, 12::int] = 12 \<and>
   set [0, 1, 2, 3, 4, 5, 6, 7, 8, 9, 0, 12::int] \<subseteq> {0..<13}"
  using getRandomList_large_sample [of 13 idPerm] is_perm_idPerm [of 13]
  by (simp add: take_idPerm)

text \<open>
  The claim as stated fails: with \<open>n = 13\<close> and the identity permutation the draw holds
  the index \<open>0\<close>, which is appended once more, so the sample returned is not free of
  duplicates.
\<close>

theorem getRandomList_duplicates:
  "is_perm 13 (idPerm 13) \<and>
   getRandomList idPerm 13 = Inr [0, 1, 2, 3, 4, 5, 6, 7, 8, 9, 0, 12] \<and>
   \<not> distinct [0, 1, 2, 3, 4, 5, 6, 7, 8, 9, 0, 12::int]"
  by (simp add: is_perm_idPerm getRandomList_idPerm upt_rec)

text \<open>
  Claim C3: for every \<open>n\<close> with \<open>1 \<le> n \<le> 12\<close> the selection returns a sample and does
  not panic: for \<open>n \<le> 10\<close> it draws nothing and returns \<open>[0, n]\<close>, for \<open>n\<close> of 11 or 12 it
  takes 10 entries of a permutation that has \<open>n\<close> of them. The sample never holds more
  than \<open>n\<close> drawn indices besides its two boundary entries. The function has no loop.
\<close>

theorem getRandomList_small_returns:
  assumes "1 \<le> n" "n \<le> 12" "is_perm n (Perm n)"
  shows "\<exists>xs. getRandomList Perm n = Inr xs \<and>
     xs = (if n \<le> 10 then [0, n] else take 10 (Perm n) @ [0, n - 1]) \<and>
     int (length xs) - 2 \<le> n \<and> length (take (length xs - 2) (Perm n)) = length xs - 2"
proof (cases "n \<le> 10")
  case True
  then show ?thesis using assms(1) by (simp add: getRandomList_def)
next
  case False
  then have n: "10 < n" by simp
  note tp = take_perm [OF n, of "Perm n", OF assms(3)]
  have "getRandomList Perm n = Inr (take 10 (Perm n) @ [0, n - 1])"
    using n assms(3) by (simp add: getRandomList_large)
  then show ?thesis using False n tp(3) by simp
qed

theorem getRandomList_small_returns_witness:
  "(1::int) \<le> 11 \<and> (11::int) \<le> 12 \<and> is_perm 11 (idPerm 11) \<and>
   getRandomList idPerm 11 = Inr [0, 1, 2, 3, 4, 5, 6, 7, 8, 9, 0, 10]"
  using getRandomList_small_returns [of 11 idPerm] is_perm_idPerm [of 11]
  by (simp add: take_idPerm)

section \<open>Properties of the fixture builder\<close>

lemma call_Name: "Name (listener (call b c)) = Name (listener b)"
  by (cases c)
    (simp_all add: WithPort_def HTTP_def HTTPS_def TLS_def TCP_def WithHostname_def
      WithAllowedRoutes_def)

lemma chain_Name: "Name (listener (chain b cs)) = Name (listener b)"
  unfolding chain_def by (induction cs arbitrary: b) (simp_all add: call_Name)

text \<open>
  Claim C8, evaluated on the code. The claim asks that every field the caller left unset
  resolves to a non-trivial default of the gateway API. The builder sets no default at
  all: a listener built right after \<open>NewListener\<close> has the zero value of its type in
  every field but \<open>Name\<close>: port 0, the empty protocol, and \<open>nil\<close> for the hostname, the
  TLS configuration and the allowed routes.
\<close>

theorem Build_NewListener_zero_values:
  "Build (NewListener name) =
     \<lparr>Name = name, Hostname = None, Port = 0, Protocol = [],
      TLSConfig = None, AllowedRoutes = None\<rparr>"
  by (simp add: Build_def NewListener_def)

text \<open>
  Claim C9: whatever the name and the finite sequence of setter calls applied to
  \<open>NewListener name\<close>, the listener that \<open>Build\<close> returns has the name given at
  construction.
\<close>

theorem Build_chain_Name:
  "Name (Build (chain (NewListener name) cs)) = name"
  by (simp add: Build_def chain_Name) (simp add: NewListener_def)

text \<open>
  Claim C10: for every builder state, \<open>IntoSlice\<close> returns a slice of length exactly one
  whose only element is the listener that \<open>Build\<close> returns on that state.
\<close>

theorem IntoSlice_Build:
  "IntoSlice b = [Build b] \<and> length (IntoSlice b) = 1"
  by (simp add: IntoSlice_def Build_def)

section \<open>Properties of the harness\<close>

subsection \<open>The wait group counts the unresolved tasks\<close>

lemma pending_snoc: "pending (ts @ [(i, Created)]) = Suc (pending ts)"
  by (simp add: pending_def)

lemma pending_update:
  "j < length ts \<Longrightarrow>
   pending (ts[j := (i, st)]) + (if unresolved (snd (ts ! j)) then 1 else 0) =
   pending ts + (if unresolved st then 1 else 0)"
proof (induction ts arbitrary: j)
  case Nil
  then show ?case by simp
next
  case (Cons t ts)
  show ?case
  proof (cases j)
    case 0
    then show ?thesis by (simp add: pending_def)
  next
    case (Suc k)
    then have "k < length ts" using Cons.prems by simp
    from Cons.IH [OF this] show ?thesis using Suc by (simp add: pending_def)
  qed
qed

lemma map_fst_update: "j < length ts \<Longrightarrow> map fst (ts[j := (fst (ts ! j), st)]) = map fst ts"
  by (simp add: map_update list_update_same_conv)

lemma pending_zero: "pending ts = 0 \<Longrightarrow> t \<in> set ts \<Longrightarrow> \<not> unresolved (snd t)"
  by (auto simp: pending_def filter_empty_conv)

lemma join_inv_start: "join_inv (start c)"
  by (simp add: join_inv_def start_def pending_def)

lemma join_inv_main:
  assumes "main_step E ok (pc s) s = Some s'" "join_inv s"
  shows "join_inv s'"
proof (cases "pc s")
  case (L160 rest)
  then show ?thesis using assms
    by (cases rest) (auto simp: join_inv_def pending_snoc)
next
  case L156
  then show ?thesis using assms
    by (auto simp: join_inv_def pending_def split: sum.splits)
qed (use assms in \<open>auto simp: join_inv_def split: if_splits option.splits\<close>)

lemma join_inv_same:
  assumes "pc s' = pc s" "tasks s' = tasks s" "wg s' = wg s" "randomList s' = randomList s"
  shows "join_inv s' = join_inv s"
  using assms by (simp add: join_inv_def)

lemma join_inv_set_poll: "join_inv (set_poll j p s) = join_inv s"
  by (rule join_inv_same) (simp_all add: set_poll_def)

lemma join_inv_finish: "join_inv (finish j p r s) = join_inv s"
  by (rule join_inv_same) (simp_all add: finish_def set_poll_def split: verdict.splits)

lemma join_inv_failed: "join_inv (s\<lparr>failed := b\<rparr>) = join_inv s"
  by (simp add: join_inv_def)

lemma join_inv_keep:
  assumes "j < length (tasks s)" "unresolved (snd (tasks s ! j))" "unresolved st" "join_inv s"
  shows "join_inv (set_task j st p s)"
  using assms pending_update [of j "tasks s" "fst (tasks s ! j)" st]
  by (auto simp: join_inv_def set_task_def map_fst_update)

lemma join_inv_resolve:
  assumes "j < length (tasks s)" "unresolved (snd (tasks s ! j))" "\<not> unresolved st" "join_inv s"
  shows "join_inv (wg_Done (set_task j st p s))"
  using assms pending_update [of j "tasks s" "fst (tasks s ! j)" st]
  by (auto simp: join_inv_def wg_Done_def set_task_def map_fst_update)

lemma join_inv_task:
  assumes "task_step E j (snd (tasks s ! j)) p e s = Some s'" "j < length (tasks s)" "join_inv s"
  shows "join_inv s'"
proof (cases e)
  case (Finish r)
  then show ?thesis using assms by (auto simp: join_inv_finish split: if_splits)
next
  case (NewRequest ok)
  then show ?thesis using assms
    by (cases "snd (tasks s ! j)") (auto simp: join_inv_keep join_inv_resolve join_inv_failed)
next
  case Fire
  then show ?thesis using assms
    by (cases "snd (tasks s ! j)") (auto simp: join_inv_set_poll split: if_splits)
next
  case Tick
  then show ?thesis using assms
    by (cases "snd (tasks s ! j)") (auto simp: join_inv_set_poll split: if_splits)
next
  case Receive
  then show ?thesis using assms
    by (cases "snd (tasks s ! j)")
      (auto simp: join_inv_set_poll join_inv_resolve split: if_splits cond.splits)
next
  case Deadline
  then show ?thesis using assms
    by (cases "snd (tasks s ! j)")
      (auto simp: join_inv_resolve join_inv_failed split: if_splits)
qed

lemma join_inv_act:
  assumes "act E e s = Some s'" "join_inv s"
  shows "join_inv s'"
proof (cases e)
  case (Advance d)
  then show ?thesis using assms by (auto simp: join_inv_def)
next
  case (Main ok)
  then show ?thesis using assms by (simp add: join_inv_main)
next
  case (Task j te)
  then show ?thesis using assms by (auto simp: join_inv_task split: if_splits)
qed

lemma step_act: "step E e s = Some s' \<Longrightarrow> act E e s = Some s' \<and> \<not> crashed s"
  by (simp add: step_def split: if_splits)

lemma join_inv_run: "run E es s = Some s' \<Longrightarrow> join_inv s \<Longrightarrow> join_inv s'"
  by (induction es arbitrary: s) (auto split: option.splits dest: step_act join_inv_act)

subsection \<open>The instants recorded\<close>

lemma time_inv_start: "time_inv (start c)"
  by (simp add: time_inv_def start_def reported_def)

lemma time_inv_main:
  assumes "main_step E ok (pc s) s = Some s'" "time_inv s"
  shows "time_inv s'"
proof (cases "pc s")
  case (L160 rest)
  then show ?thesis using assms by (cases rest) (auto simp: time_inv_def)
next
  case L156
  then show ?thesis using assms by (auto simp: time_inv_def split: sum.splits)
next
  case L190
  then show ?thesis using assms by (auto simp: time_inv_def sorted_append)
next
  case L192
  then show ?thesis using assms by (auto simp: time_inv_def reported_def split: option.splits)
qed (use assms in \<open>auto simp: time_inv_def sorted_append split: if_splits\<close>)

lemma finish_frame:
  "pc (finish j p r s) = pc s \<and> now (finish j p r s) = now s \<and>
   instants (finish j p r s) = instants s \<and> t1 (finish j p r s) = t1 s \<and>
   t2 (finish j p r s) = t2 s \<and> t4 (finish j p r s) = t4 s \<and>
   reported (logs (finish j p r s)) = reported (logs s) \<and> tasks (finish j p r s) = tasks s \<and>
   wg (finish j p r s) = wg s"
  by (simp add: finish_def set_poll_def reported_def split: verdict.splits)

lemma task_step_frame:
  assumes "task_step E j st p e s = Some s'"
  shows "pc s' = pc s \<and> now s' = now s \<and> instants s' = instants s \<and> t1 s' = t1 s \<and>
    t2 s' = t2 s \<and> t4 s' = t4 s \<and> reported (logs s') = reported (logs s)"
proof (cases e)
  case (Finish r)
  then show ?thesis using assms finish_frame [of j p r s] by (auto split: if_splits)
qed (use assms in \<open>cases st; auto simp: set_task_def set_poll_def wg_Done_def
        split: if_splits cond.splits\<close>)+

lemma sorted_later: "sorted (xs @ [n]) \<Longrightarrow> sorted (xs @ [n + d])"
  for n :: nat
  by (auto simp: sorted_append intro: trans_le_add1)

lemma time_inv_act:
  assumes "act E e s = Some s'" "time_inv s"
  shows "time_inv s'"
proof (cases e)
  case (Advance d)
  then show ?thesis using assms by (auto simp: time_inv_def sorted_later)
next
  case (Main ok)
  then show ?thesis using assms by (simp add: time_inv_main)
next
  case (Task j te)
  then have "task_step E j (snd (tasks s ! j)) (polls s ! j) te s = Some s'"
    using assms(1) by (simp split: if_splits)
  from task_step_frame [OF this] show ?thesis using assms(2) by (simp add: time_inv_def)
qed

lemma time_inv_run: "run E es s = Some s' \<Longrightarrow> time_inv s \<Longrightarrow> time_inv s'"
  by (induction es arbitrary: s) (auto split: option.splits dest: step_act time_inv_act)


subsection \<open>The ticker bounds the attempts\<close>







subsection \<open>The concrete runs, evaluated\<close>

lemma getRandomList_sample0: "getRandomList idPerm 10000 = Inr sample0"
  by (simp add: getRandomList_idPerm sample0_def upt_rec)

lemma rand_Perm_env0: "rand_Perm env0 = idPerm"
  by (simp add: env0_def)

lemma ingressWait_env0: "ingressWait env0 = 3000"
  by (simp add: env0_def)

lemma run_append:
  "run E (es @ es') s = (case run E es s of None \<Rightarrow> None | Some s' \<Rightarrow> run E es' s')"
  by (induction es arbitrary: s) (simp_all split: option.splits)

lemmas run_simps =
  step_def set_task_def set_poll_def wg_Done_def finish_def new_poll_def tick_def
  StatusOK_def good_def attempt_def ingressWait_env0


lemma run_until_loop:
  "run env0 until_loop (start 0) =
     Some \<lparr>pc = L160 sample0, now = 12, instants = [3, 10], t1 = Some 3, t2 = Some 10,
           t4 = None, randomList = sample0, wg = 12, tasks = [], polls = [],
           failed = False, logs = [], crashed = False\<rparr>"
  by (simp add: until_loop_def start_def step_def rand_Perm_env0 getRandomList_sample0)
    (simp add: sample0_def)

lemma run_first_go: "run env0 first_go (start 0) = Some polling"
  by (simp add: first_go_def run_append run_until_loop)
    (simp add: sample0_def polling_def run_simps)





lemma replicate_13: "replicate 13 x = [x, x, x, x, x, x, x, x, x, x, x, x, x]"
  by (simp add: numeral_eq_Suc)

lemma replicate_12: "replicate 12 x = [x, x, x, x, x, x, x, x, x, x, x, x]"
  by (simp add: numeral_eq_Suc)

lemma replicate_11: "replicate 11 x = [x, x, x, x, x, x, x, x, x, x, x]"
  by (simp add: numeral_eq_Suc)

lemma upt_12: "[0..<12] = [0, 1, 2, 3, 4, 5, 6, 7, 8, 9, 10, 11]"
  by (simp add: upt_rec)


lemma run_all_go: "run env0 all_go (start 0) = Some waiting"
  by (simp add: all_go_def run_append run_until_loop replicate_13)
    (simp add: sample0_def waiting_def step_def replicate_12)

lemma run_all_poll: "run env0 all_poll (start 0) = Some all_polling"
  by (simp add: all_poll_def run_append run_all_go upt_12)
    (simp add: waiting_def all_polling_def sample0_def replicate_12 run_simps)

lemma run_full: "run env0 full_run (start 0) = Some final"
  by (simp add: full_run_def run_append run_all_poll upt_12)
    (simp add: all_polling_def final_def sample0_def replicate_12 replicate_11 run_simps)


subsection \<open>The claims on the harness\<close>




text \<open>
  Claim C5: in every run, while the submission is in progress (lines 141 to 146), or
  after it has failed, no task has been started; and once a task has been started, the
  main goroutine is at the loop of line 160 or beyond and has recorded \<open>t2\<close>, which it
  does after \<open>kubectl apply\<close> has returned without an error.
\<close>

theorem submission_before_dispatch:
  assumes "run E es (start c) = Some s"
  shows "(pc s \<in> {L141, L143, L146, Exited} \<longrightarrow> tasks s = []) \<and>
    (tasks s \<noteq> [] \<longrightarrow>
       pc s \<notin> {L141, L143, L146, L148, L151, L156, Exited, Panicked} \<and> t2 s \<noteq> None)"
proof -
  have j: "join_inv s" using assms join_inv_start by (rule join_inv_run)
  have t: "time_inv s" using assms time_inv_start by (rule time_inv_run)
  have a: "pc s \<in> {L141, L143, L146, Exited} \<longrightarrow> tasks s = []"
    using j by (auto simp: join_inv_def)
  have b: "pc s \<notin> {L141, L143, L146, L148, L151, L156, Exited, Panicked}" if "tasks s \<noteq> []"
    using j that by (cases "pc s") (auto simp: join_inv_def)
  have c: "t2 s \<noteq> None" if "tasks s \<noteq> []"
  proof -
    have "shape (pc s) (t1 s) (t2 s) (t4 s)" using t by (simp add: time_inv_def)
    then show ?thesis using b [OF that] by (cases "pc s") simp_all
  qed
  show ?thesis using a b c by blast
qed

theorem submission_before_dispatch_witness:
  "run env0 first_go (start 0) = Some polling \<and> tasks polling = [(0, Polling 13)] \<and>
   pc polling = L160 [1, 2, 3, 4, 5, 6, 7, 8, 9, 0, 9999] \<and> t2 polling = Some 10"
  using submission_before_dispatch [OF run_first_go] run_first_go
  by (simp add: polling_def)

text \<open>
  Claim C6: in every run, once the main goroutine is past \<open>wg.Wait\<close> (at line 190 or
  beyond, or with \<open>t4\<close> recorded), one task has been started for every sampled index and
  every one of them is resolved, as a success or as a failure; and at \<open>wg.Wait\<close> the main
  goroutine cannot step as long as some task is unresolved.
\<close>

theorem full_join:
  assumes "run E es (start c) = Some s"
  shows "(pc s \<in> {L190, L192, Returned} \<or> t4 s \<noteq> None \<longrightarrow>
       map fst (tasks s) = randomList s \<and>
       (\<forall>t \<in> set (tasks s). snd t = Succeeded \<or> snd t = Failed)) \<and>
    (pc s = L188 \<and> (\<exists>t \<in> set (tasks s). snd t \<noteq> Succeeded \<and> snd t \<noteq> Failed) \<longrightarrow>
       step E (Main ok) s = None)"
proof -
  have j: "join_inv s" using assms join_inv_start by (rule join_inv_run)
  have t: "time_inv s" using assms time_inv_start by (rule time_inv_run)
  have res: "snd x = Succeeded \<or> snd x = Failed"
    if "pending (tasks s) = 0" "x \<in> set (tasks s)" for x
    using pending_zero [OF that] by (cases "snd x") simp_all
  have p: "pc s \<in> {L190, L192, Returned}" if "t4 s \<noteq> None"
  proof -
    have "shape (pc s) (t1 s) (t2 s) (t4 s)" using t by (simp add: time_inv_def)
    then show ?thesis using that by (cases "pc s") simp_all
  qed
  have a: "map fst (tasks s) = randomList s \<and>
      (\<forall>t \<in> set (tasks s). snd t = Succeeded \<or> snd t = Failed)"
    if "pc s \<in> {L190, L192, Returned}"
    using j that res by (auto simp: join_inv_def)
  have b: "step E (Main ok) s = None"
    if "pc s = L188" "\<exists>t \<in> set (tasks s). snd t \<noteq> Succeeded \<and> snd t \<noteq> Failed"
  proof -
    have "pending (tasks s) \<noteq> 0" using that(2) res by blast
    then show ?thesis using j that(1) by (simp add: join_inv_def step_def)
  qed
  show ?thesis using a b p by blast
qed

theorem full_join_witness:
  "run env0 full_run (start 0) = Some final \<and> pc final = Returned \<and> t4 final = Some 1012 \<and>
   map fst (tasks final) = randomList final \<and>
   map snd (tasks final) = replicate 12 Succeeded \<and>
   run env0 all_go (start 0) = Some waiting \<and> pc waiting = L188 \<and>
   map snd (tasks waiting) = replicate 12 Created \<and>
   step env0 (Main True) waiting = None"
  using full_join [OF run_full] full_join [OF run_all_go, of True] run_full run_all_go
  by (simp add: final_def waiting_def sample0_def replicate_12)















end
